theory Spec2Isabelle
  imports Complex_Main "HOL-Library.Sublist"
begin

section \<open>Python strings\<close>

text \<open>
  A Python \<^verbatim>\<open>str\<close> is modelled as a \<^typ>\<open>string\<close>: a list of characters whose
  code points are below 256 (ASCII and Latin-1). \<^verbatim>\<open>len\<close> is \<^const>\<open>length\<close>,
  \<^verbatim>\<open>+\<close> is \<^const>\<open>append\<close>. Code points beyond 255 are outside the model.
\<close>

definition code_point :: "char \<Rightarrow> nat" where
  "code_point c = of_char c"

text \<open>\<^verbatim>\<open>str.isspace\<close> on one character: the white-space code points below 256.\<close>

definition is_space :: "char \<Rightarrow> bool" where
  "is_space c = (let n = code_point c in
     (9 \<le> n \<and> n \<le> 13) \<or> (28 \<le> n \<and> n \<le> 32) \<or> n = 133 \<or> n = 160)"

text \<open>\<^verbatim>\<open>u.strip()\<close>: white space removed at both ends.\<close>

definition strip :: "string \<Rightarrow> string" where
  "strip u = rev (dropWhile is_space (rev (dropWhile is_space u)))"

text \<open>\<^verbatim>\<open>str.lower\<close> on one character below 256: A-Z and the Latin-1 capitals
  (192-222 except the multiplication sign 215) move up by 32.\<close>

definition lower_char :: "char \<Rightarrow> char" where
  "lower_char c = (let n = code_point c in
     if (65 \<le> n \<and> n \<le> 90) \<or> (192 \<le> n \<and> n \<le> 222 \<and> n \<noteq> 215)
     then char_of (n + 32) else c)"

definition lower :: "string \<Rightarrow> string" where
  "lower u = map lower_char u"

text \<open>\<^verbatim>\<open>w in s\<close> on strings: \<open>w\<close> occurs in \<open>s\<close> as a contiguous block.\<close>

definition str_in :: "string \<Rightarrow> string \<Rightarrow> bool" where
  "str_in w s = list_ex (prefix w) (suffixes s)"

text \<open>\<^verbatim>\<open>s.count(c)\<close> for a one-character string \<open>c\<close>.\<close>

definition str_count :: "string \<Rightarrow> char \<Rightarrow> nat" where
  "str_count s c = length (filter (\<lambda>x. x = c) s)"

text \<open>\<^verbatim>\<open>s.find(c)\<close> and \<^verbatim>\<open>s.find(c, start)\<close> for a one-character string:
  the first index at or after \<open>start\<close>, \<open>None\<close> for Python's \<open>-1\<close>.\<close>

fun find_from :: "string \<Rightarrow> char \<Rightarrow> nat \<Rightarrow> nat option" where
  "find_from [] c start = None"
| "find_from (x # xs) c 0 = (if x = c then Some 0 else map_option Suc (find_from xs c 0))"
| "find_from (x # xs) c (Suc n) = map_option Suc (find_from xs c n)"

definition str_find :: "string \<Rightarrow> char \<Rightarrow> nat option" where
  "str_find s c = find_from s c 0"

text \<open>\<^verbatim>\<open>s.split(c)\<close> for a one-character separator: always at least one piece.\<close>

fun split_on :: "char \<Rightarrow> string \<Rightarrow> string list" where
  "split_on c [] = [[]]"
| "split_on c (x # xs) =
     (if x = c then [] # split_on c xs
      else (case split_on c xs of p # ps \<Rightarrow> (x # p) # ps | [] \<Rightarrow> [[x]]))"

text \<open>\<^verbatim>\<open>str.isascii\<close> on one character.\<close>

definition is_ascii :: "char \<Rightarrow> bool" where
  "is_ascii c = (code_point c < 128)"

section \<open>Configuration constants\<close>

definition SAFE_DOMAINS :: "string list" where
  "SAFE_DOMAINS = [''google.com'', ''facebook.com'', ''microsoft.com'', ''apple.com'',
     ''amazon.com'', ''paypal.com'', ''github.com'', ''linkedin.com'', ''twitter.com'']"

definition TRICKY_WORDS :: "string list" where
  "TRICKY_WORDS = [''login'', ''secure'', ''account'', ''update'', ''verify'', ''signin'',
     ''auth'', ''webscr'', ''bank'', ''bonus'', ''reset'', ''free'', ''claim'',
     ''activity'', ''security'', ''confirm'', ''submit'', ''support'']"

section \<open>The IP-literal detector\<close>

text \<open>
  \<^verbatim>\<open>re.search(r"http[s]?://(?:\d{1,3}\.){3}\d{1,3}", u) is not None\<close>.

  A pattern is modelled as a backtracking matcher: applied to a string it returns the
  remainders left by every way of matching a prefix, most preferred first. The pattern
  matches at a position when the list is not empty, and \<^verbatim>\<open>re.search\<close> tries every
  position of the string. \<^verbatim>\<open>\d\<close> matches a decimal digit; below code point 256
  these are 0-9.
\<close>

type_synonym matcher = "string \<Rightarrow> string list"

definition is_digit :: "char \<Rightarrow> bool" where
  "is_digit c = (48 \<le> code_point c \<and> code_point c \<le> 57)"

definition lit :: "string \<Rightarrow> matcher" where
  "lit p s = (if prefix p s then [drop (length p) s] else [])"

definition digit :: matcher where
  "digit s = (case s of [] \<Rightarrow> [] | c # r \<Rightarrow> if is_digit c then [r] else [])"

definition seq :: "matcher \<Rightarrow> matcher \<Rightarrow> matcher" where
  "seq m1 m2 s = concat (map m2 (m1 s))"

text \<open>\<^verbatim>\<open>X?\<close>, greedy: with \<open>X\<close> first, without it second.\<close>

definition opt :: "matcher \<Rightarrow> matcher" where
  "opt m s = m s @ [s]"

text \<open>\<^verbatim>\<open>X{1,3}\<close>, greedy: \<open>X(X(X)?)?\<close>.\<close>

definition rep_1_3 :: "matcher \<Rightarrow> matcher" where
  "rep_1_3 m = seq m (opt (seq m (opt m)))"

definition ip_group :: matcher where
  "ip_group = seq (rep_1_3 digit) (lit ''.'')"

definition ip_regex :: matcher where
  "ip_regex = seq (lit ''http'') (seq (opt (lit ''s'')) (seq (lit ''://'')
     (seq ip_group (seq ip_group (seq ip_group (rep_1_3 digit))))))"

definition looks_like_ip :: "string \<Rightarrow> bool" where
  "looks_like_ip u = list_ex (\<lambda>s. ip_regex s \<noteq> []) (suffixes u)"

section \<open>The other signal detectors\<close>

definition find_bad_words :: "string \<Rightarrow> string list" where
  "find_bad_words u = (let lowered = lower u in filter (\<lambda>w. str_in w lowered) TRICKY_WORDS)"

definition too_many_symbols :: "string \<Rightarrow> bool" where
  "too_many_symbols u =
     (str_count u CHR ''-'' > 5 \<or> str_count u CHR ''@'' > 1 \<or> str_count u CHR ''='' > 5)"

definition is_secure :: "string \<Rightarrow> bool" where
  "is_secure u = prefix ''https://'' (lower u)"

section \<open>URL parsing (urllib.parse of the Python standard library)\<close>

text \<open>
  \<^verbatim>\<open>normalize_url\<close> calls \<^verbatim>\<open>urllib.parse.urlparse\<close>. The functions below follow
  \<^verbatim>\<open>Lib/urllib/parse.py\<close> of CPython 3.11 with the default arguments
  (\<^verbatim>\<open>scheme=''\<close>, \<^verbatim>\<open>allow_fragments=True\<close>). Two parts of the library are
  parameters:
  \<^item> \<^verbatim>\<open>_check_bracketed_host\<close> (validation of an IPv6 or IPvFuture literal between
    brackets, through the \<^verbatim>\<open>ipaddress\<close> module): \<open>True\<close> when the host is accepted,
    \<open>False\<close> when the library raises \<^verbatim>\<open>ValueError\<close>;
  \<^item> \<^verbatim>\<open>unicodedata.normalize('NFKC', n)\<close>, which \<^verbatim>\<open>_checknetloc\<close> calls on a netloc
    that is not ASCII: the normal form as a list of code points, since the normal form
    of a string may hold code points that the string does not.
\<close>

datatype error = ValueError | TypeError

record split_result =
  scheme :: string
  netloc :: string
  path :: string
  query :: string
  fragment :: string

definition lstrip_c0 :: "string \<Rightarrow> string" where
  "lstrip_c0 url = dropWhile (\<lambda>c. code_point c \<le> 32) url"

definition remove_unsafe :: "string \<Rightarrow> string" where
  "remove_unsafe url =
     filter (\<lambda>c. code_point c \<noteq> 9 \<and> code_point c \<noteq> 13 \<and> code_point c \<noteq> 10) url"

definition is_ascii_alpha :: "char \<Rightarrow> bool" where
  "is_ascii_alpha c = (let n = code_point c in (65 \<le> n \<and> n \<le> 90) \<or> (97 \<le> n \<and> n \<le> 122))"

definition is_scheme_char :: "char \<Rightarrow> bool" where
  "is_scheme_char c =
     (is_ascii_alpha c \<or> is_digit c \<or> c = CHR ''+'' \<or> c = CHR ''-'' \<or> c = CHR ''.'')"

text \<open>The scheme is split off at the first colon when that colon is not in front, the
  first character is an ASCII letter and every character before the colon is a scheme
  character; the scheme is lower-cased.\<close>

definition split_scheme :: "string \<Rightarrow> string \<times> string" where
  "split_scheme url =
     (case str_find url CHR '':'' of
        None \<Rightarrow> ([], url)
      | Some i \<Rightarrow>
          if i > 0 \<and> (case url of [] \<Rightarrow> False | c # _ \<Rightarrow> is_ascii_alpha c)
             \<and> list_all is_scheme_char (take i url)
          then (lower (take i url), drop (i + 1) url)
          else ([], url))"

definition splitnetloc :: "string \<Rightarrow> nat \<Rightarrow> string \<times> string" where
  "splitnetloc url start =
     (let delim = fold (\<lambda>c d. case find_from url c start of None \<Rightarrow> d | Some w \<Rightarrow> min d w)
                    ''/?#'' (length url)
      in (take (delim - start) (drop start url), drop delim url))"

text \<open>\<^verbatim>\<open>netloc.partition('[')[2].partition(']')[0]\<close>\<close>

definition bracketed_host :: "string \<Rightarrow> string" where
  "bracketed_host nl =
     takeWhile (\<lambda>c. c \<noteq> CHR '']'') (drop 1 (dropWhile (\<lambda>c. c \<noteq> CHR ''['') nl))"

text \<open>\<^verbatim>\<open>url.split(c, 1)\<close> when \<open>c\<close> occurs in \<open>url\<close>.\<close>

definition split_once :: "char \<Rightarrow> string \<Rightarrow> string \<times> string" where
  "split_once c url = (takeWhile (\<lambda>x. x \<noteq> c) url, drop 1 (dropWhile (\<lambda>x. x \<noteq> c) url))"

text \<open>The fragment, then the query, are cut from what follows the netloc.\<close>

definition split_tail :: "string \<Rightarrow> string \<times> string \<times> string" where
  "split_tail url0 =
     (let (url, frag) = (if CHR ''#'' \<in> set url0 then split_once CHR ''#'' url0 else (url0, []));
          (url, qry) = (if CHR ''?'' \<in> set url then split_once CHR ''?'' url else (url, []))
      in (url, qry, frag))"

text \<open>\<^verbatim>\<open>_checknetloc\<close>: \<open>True\<close> when the function returns, \<open>False\<close> when it raises
  \<^verbatim>\<open>ValueError\<close>. An empty or ASCII netloc is accepted at once. Otherwise the
  characters \<^verbatim>\<open>@ : # ?\<close> are removed, and the netloc is refused when the NFKC normal
  form of the rest differs from it and holds one of \<^verbatim>\<open>/ ? # @ :\<close>.\<close>

definition checknetloc :: "(string \<Rightarrow> nat list) \<Rightarrow> string \<Rightarrow> bool" where
  "checknetloc nfkc nl =
     (if nl = [] \<or> list_all is_ascii nl then True
      else
        (let n = filter (\<lambda>c. c \<noteq> CHR ''@'' \<and> c \<noteq> CHR '':'' \<and> c \<noteq> CHR ''#'' \<and> c \<noteq> CHR ''?'') nl;
             netloc2 = nfkc n
         in if map code_point n = netloc2 then True
            else \<not> list_ex (\<lambda>c. code_point c \<in> set netloc2) ''/?#@:''))"

definition urlsplit ::
  "(string \<Rightarrow> bool) \<Rightarrow> (string \<Rightarrow> nat list) \<Rightarrow> string \<Rightarrow> error + split_result" where
  "urlsplit check_bracketed_host nfkc url0 =
     (let url = remove_unsafe (lstrip_c0 url0);
          (sch, url) = split_scheme url
      in if take 2 url = ''//'' then
           (let (nl, url) = splitnetloc url 2 in
            if (CHR ''['' \<in> set nl \<and> CHR '']'' \<notin> set nl) \<or> (CHR '']'' \<in> set nl \<and> CHR ''['' \<notin> set nl)
            then Inl ValueError
            else if CHR ''['' \<in> set nl \<and> CHR '']'' \<in> set nl
                    \<and> \<not> check_bracketed_host (bracketed_host nl)
            then Inl ValueError
            else
              (let (url, qry, frag) = split_tail url
               in if \<not> checknetloc nfkc nl then Inl ValueError
                  else Inr \<lparr>scheme = sch, netloc = nl, path = url, query = qry,
                         fragment = frag\<rparr>))
         else
           (let (url, qry, frag) = split_tail url
            in if \<not> checknetloc nfkc [] then Inl ValueError
               else Inr \<lparr>scheme = sch, netloc = [], path = url, query = qry, fragment = frag\<rparr>))"

definition uses_params :: "string list" where
  "uses_params = [[], ''ftp'', ''hdl'', ''prospero'', ''http'', ''imap'',
     ''https'', ''shttp'', ''rtsp'', ''rtsps'', ''rtspu'', ''sip'',
     ''sips'', ''mms'', ''sftp'', ''tel'']"

definition rfind :: "string \<Rightarrow> char \<Rightarrow> nat option" where
  "rfind s c = (case str_find (rev s) c of None \<Rightarrow> None | Some k \<Rightarrow> Some (length s - 1 - k))"

text \<open>\<^verbatim>\<open>_splitparams\<close>: the path without the parameters of its last segment. When
  there is no slash and no semicolon, Python's index \<open>-1\<close> gives \<^verbatim>\<open>url[:-1]\<close>;
  \<^verbatim>\<open>urlparse\<close> calls the function only on a path that has a semicolon.\<close>

definition splitparams :: "string \<Rightarrow> string \<times> string" where
  "splitparams url =
     (if CHR ''/'' \<in> set url then
        (case find_from url CHR '';'' (case rfind url CHR ''/'' of None \<Rightarrow> 0 | Some r \<Rightarrow> r) of
           None \<Rightarrow> (url, [])
         | Some i \<Rightarrow> (take i url, drop (i + 1) url))
      else
        (case str_find url CHR '';'' of
           None \<Rightarrow> (butlast url, url)
         | Some i \<Rightarrow> (take i url, drop (i + 1) url)))"

text \<open>\<^verbatim>\<open>urlparse\<close>. \<^verbatim>\<open>normalize_url\<close> reads the scheme, the netloc and the path of
  the result, so the parameters that are cut from the path are not kept.\<close>

definition urlparse ::
  "(string \<Rightarrow> bool) \<Rightarrow> (string \<Rightarrow> nat list) \<Rightarrow> string \<Rightarrow> error + split_result" where
  "urlparse check_bracketed_host nfkc url =
     (case urlsplit check_bracketed_host nfkc url of
        Inl e \<Rightarrow> Inl e
      | Inr r \<Rightarrow>
          if scheme r \<in> set uses_params \<and> CHR '';'' \<in> set (path r)
          then Inr (r\<lparr>path := fst (splitparams (path r))\<rparr>)
          else Inr r)"

section \<open>The URL normalizer\<close>

definition normalize_url ::
  "(string \<Rightarrow> bool) \<Rightarrow> (string \<Rightarrow> nat list) \<Rightarrow> string \<Rightarrow> error + string" where
  "normalize_url check_bracketed_host nfkc u =
     (case urlparse check_bracketed_host nfkc u of
        Inl e \<Rightarrow> Inl e
      | Inr parsed \<Rightarrow>
          if scheme parsed = [] then
            (case urlparse check_bracketed_host nfkc (''http://'' @ u) of
               Inl e \<Rightarrow> Inl e
             | Inr parsed \<Rightarrow> Inr (scheme parsed @ ''://'' @ netloc parsed @ path parsed))
          else Inr (scheme parsed @ ''://'' @ netloc parsed @ path parsed))"

section \<open>String similarity (difflib.SequenceMatcher of the Python standard library)\<close>

text \<open>
  \<^verbatim>\<open>SequenceMatcher(None, a, b).ratio()\<close>, following \<^verbatim>\<open>Lib/difflib.py\<close> of
  CPython 3.11 with \<^verbatim>\<open>isjunk=None\<close> and \<^verbatim>\<open>autojunk=True\<close>. No element is junk,
  so the two junk-extension loops of \<^verbatim>\<open>find_longest_match\<close> never run and are left
  out. An element of \<open>b\<close> is popular, and dropped from the index \<^verbatim>\<open>b2j\<close>, when
  \<open>b\<close> has at least 200 elements and the element fills more than 1 percent plus one of
  them.

  The ratio is the float \<^verbatim>\<open>2.0 * matches / length\<close>; it is modelled as the exact
  rational number. Distinct ratios differ by at least the inverse of the product of the
  two lengths, so the rounding to a float does not change a comparison between two
  ratios, or with the literal \<^verbatim>\<open>0.85\<close>, on any string that fits in memory.
\<close>

definition is_popular :: "string \<Rightarrow> char \<Rightarrow> bool" where
  "is_popular b c = (length b \<ge> 200 \<and> str_count b c > length b div 100 + 1)"

definition b2j :: "string \<Rightarrow> char \<Rightarrow> nat list" where
  "b2j b c = (if is_popular b c then [] else filter (\<lambda>j. b ! j = c) [0..<length b])"

text \<open>A match \<open>(i, j, k)\<close>: \<^verbatim>\<open>a[i:i+k] == b[j:j+k]\<close>.\<close>

type_synonym match = "nat \<times> nat \<times> nat"

text \<open>The inner loop of \<^verbatim>\<open>find_longest_match\<close> for one \<open>i\<close>, over the indices
  \<open>j\<close> of \<open>b\<close> that hold \<open>a[i]\<close>: indices below \<open>blo\<close> are skipped, the loop stops
  at \<open>bhi\<close>, \<^verbatim>\<open>k = newj2len[j] = j2len.get(j-1, 0) + 1\<close>, and a strictly longer
  \<open>k\<close> replaces the best match. The dictionaries are association lists.\<close>

fun scan_js :: "(nat \<times> nat) list \<Rightarrow> nat \<Rightarrow> nat \<Rightarrow> nat \<Rightarrow> nat list
    \<Rightarrow> (nat \<times> nat) list \<times> match \<Rightarrow> (nat \<times> nat) list \<times> match" where
  "scan_js j2len i blo bhi [] st = st"
| "scan_js j2len i blo bhi (j # js) (newj2len, best) =
     (if j < blo then scan_js j2len i blo bhi js (newj2len, best)
      else if j \<ge> bhi then (newj2len, best)
      else (let k = (if j = 0 then 0 else case map_of j2len (j - 1) of None \<Rightarrow> 0 | Some v \<Rightarrow> v) + 1
            in scan_js j2len i blo bhi js
                 ((j, k) # newj2len,
                  if k > snd (snd best) then (i + 1 - k, j + 1 - k, k) else best)))"

text \<open>The outer loop, \<^verbatim>\<open>for i in range(alo, ahi)\<close>, from \<^verbatim>\<open>j2len = {}\<close> and the
  best match \<^verbatim>\<open>(alo, blo, 0)\<close>; each round starts a fresh \<^verbatim>\<open>newj2len\<close>.\<close>

definition longest_junk_free :: "string \<Rightarrow> string \<Rightarrow> nat \<Rightarrow> nat \<Rightarrow> nat \<Rightarrow> nat \<Rightarrow> match" where
  "longest_junk_free a b alo ahi blo bhi =
     snd (fold (\<lambda>i (j2len, best). scan_js j2len i blo bhi (b2j b (a ! i)) ([], best))
            [alo..<ahi] ([], (alo, blo, 0)))"

text \<open>The two \<^verbatim>\<open>while\<close> loops that extend the best match by equal elements, first to
  the left, then to the right.\<close>

function extend_left :: "string \<Rightarrow> string \<Rightarrow> nat \<Rightarrow> nat \<Rightarrow> match \<Rightarrow> match" where
  "extend_left a b alo blo (besti, bestj, bestsize) =
     (if besti > alo \<and> bestj > blo \<and> a ! (besti - 1) = b ! (bestj - 1)
      then extend_left a b alo blo (besti - 1, bestj - 1, bestsize + 1)
      else (besti, bestj, bestsize))"
  by pat_completeness auto
termination
  by (relation "measure (\<lambda>(a, b, alo, blo, besti, bestj, bestsize). besti)") auto

declare extend_left.simps [simp del]

function extend_right :: "string \<Rightarrow> string \<Rightarrow> nat \<Rightarrow> nat \<Rightarrow> match \<Rightarrow> match" where
  "extend_right a b ahi bhi (besti, bestj, bestsize) =
     (if besti + bestsize < ahi \<and> bestj + bestsize < bhi
         \<and> a ! (besti + bestsize) = b ! (bestj + bestsize)
      then extend_right a b ahi bhi (besti, bestj, bestsize + 1)
      else (besti, bestj, bestsize))"
  by pat_completeness auto
termination
  by (relation "measure (\<lambda>(a, b, ahi, bhi, besti, bestj, bestsize). ahi - (besti + bestsize))") auto

declare extend_right.simps [simp del]

definition find_longest_match :: "string \<Rightarrow> string \<Rightarrow> nat \<Rightarrow> nat \<Rightarrow> nat \<Rightarrow> nat \<Rightarrow> match" where
  "find_longest_match a b alo ahi blo bhi =
     extend_right a b ahi bhi (extend_left a b alo blo (longest_junk_free a b alo ahi blo bhi))"

text \<open>A match lies in the range in which it was searched: it starts at or after
  \<open>alo\<close> and ends at or before \<open>ahi\<close>.\<close>

definition in_range :: "nat \<Rightarrow> nat \<Rightarrow> match \<Rightarrow> bool" where
  "in_range alo ahi m = (alo \<le> fst m \<and> fst m + snd (snd m) \<le> max ahi alo)"

text \<open>The queue loop of \<^verbatim>\<open>get_matching_blocks\<close>. \<^verbatim>\<open>queue.pop()\<close> takes the range
  pushed last, so the queue is a list with that range in front: the range to the right of
  a match is pushed after the one to its left and is searched first. The loop ends because
  a match lies in its range, which the termination proof shows.\<close>

function matching_blocks_loop ::
  "string \<Rightarrow> string \<Rightarrow> (nat \<times> nat \<times> nat \<times> nat) list \<Rightarrow> match list \<Rightarrow> match list" where
  "matching_blocks_loop a b [] blocks = blocks"
| "matching_blocks_loop a b ((alo, ahi, blo, bhi) # queue) blocks =
     (case find_longest_match a b alo ahi blo bhi of (i, j, k) \<Rightarrow>
        if k \<noteq> 0 then
          matching_blocks_loop a b
            ((if i + k < ahi \<and> j + k < bhi then [(i + k, ahi, j + k, bhi)] else []) @
             (if alo < i \<and> blo < j then [(alo, i, blo, j)] else []) @ queue)
            (blocks @ [(i, j, k)])
        else matching_blocks_loop a b queue blocks)"
  by pat_completeness auto
termination
proof -
  have scan: "(\<forall>p\<in>set (fst (scan_js j2len i blo bhi js (new, best))). snd p \<le> Suc i - alo)
       \<and> in_range alo ahi (snd (scan_js j2len i blo bhi js (new, best)))"
    if "alo \<le> i" "i < ahi" "\<forall>p\<in>set j2len. snd p \<le> i - alo"
      "in_range alo ahi best" "\<forall>p\<in>set new. snd p \<le> Suc i - alo"
    for alo ahi i j2len blo bhi js new best
    using that(4,5)
  proof (induction js arbitrary: new best)
    case Nil
    then show ?case by simp
  next
    case (Cons j js)
    define k where
      "k = (if j = 0 then 0 else case map_of j2len (j - 1) of None \<Rightarrow> 0 | Some v \<Rightarrow> v) + 1"
    have "(if j = 0 then 0 else case map_of j2len (j - 1) of None \<Rightarrow> 0 | Some v \<Rightarrow> v) \<le> i - alo"
      using that(3) by (auto split: option.splits dest!: map_of_SomeD)
    then have k: "k \<le> Suc i - alo" "0 < k"
      using that(1) by (auto simp: k_def)
    have new': "\<forall>p\<in>set ((j, k) # new). snd p \<le> Suc i - alo"
      using Cons.prems(2) k by simp
    have best': "in_range alo ahi (if k > snd (snd best) then (i + 1 - k, j + 1 - k, k) else best)"
      using Cons.prems(1) k that(1,2) by (auto simp: in_range_def)
    have skip: "(\<forall>p\<in>set (fst (scan_js j2len i blo bhi js (new, best))). snd p \<le> Suc i - alo)
       \<and> in_range alo ahi (snd (scan_js j2len i blo bhi js (new, best)))"
      by (rule Cons.IH[OF Cons.prems])
    have step: "(\<forall>p\<in>set (fst (scan_js j2len i blo bhi js ((j, k) # new,
           if k > snd (snd best) then (i + 1 - k, j + 1 - k, k) else best))). snd p \<le> Suc i - alo)
       \<and> in_range alo ahi (snd (scan_js j2len i blo bhi js ((j, k) # new,
           if k > snd (snd best) then (i + 1 - k, j + 1 - k, k) else best)))"
      by (rule Cons.IH[OF best' new'])
    show ?case
    proof (cases "j < blo")
      case True
      then show ?thesis using skip by simp
    next
      case False
      show ?thesis
      proof (cases "j \<ge> bhi")
        case True
        then show ?thesis using False Cons.prems by simp
      next
        case inside: False
        have eq: "scan_js j2len i blo bhi (j # js) (new, best) =
            scan_js j2len i blo bhi js ((j, k) # new,
               if k > snd (snd best) then (i + 1 - k, j + 1 - k, k) else best)"
          using False inside by (simp add: k_def Let_def)
        show ?thesis unfolding eq by (rule step)
      qed
    qed
  qed
  have rows: "in_range alo ahi (snd (fold (\<lambda>i (j2len, best).
         scan_js j2len i blo bhi (b2j b (a ! i)) ([], best)) [m..<ahi] (j2len, best)))"
    if "alo \<le> m" "\<forall>p\<in>set j2len. snd p \<le> m - alo" "in_range alo ahi best"
    for alo ahi m j2len best blo bhi a b
    using that
  proof (induction "ahi - m" arbitrary: m j2len best)
    case 0
    then show ?case by simp
  next
    case (Suc n)
    then have m: "m < ahi" by simp
    let ?st = "scan_js j2len m blo bhi (b2j b (a ! m)) ([], best)"
    have e: "\<forall>p\<in>set ([] :: (nat \<times> nat) list). snd p \<le> Suc m - alo" by simp
    have st: "(\<forall>p\<in>set (fst ?st). snd p \<le> Suc m - alo) \<and> in_range alo ahi (snd ?st)"
      by (rule scan[OF Suc.prems(1) m Suc.prems(2) Suc.prems(3) e])
    have "n = ahi - Suc m" using Suc.hyps(2) by simp
    from Suc.hyps(1)[OF this, of "fst ?st" "snd ?st"] st Suc.prems(1)
    show ?case
      by (simp add: upt_conv_Cons[OF m] case_prod_beta)
  qed
  have junk_free: "in_range alo ahi (longest_junk_free a b alo ahi blo bhi)"
    for a b alo ahi blo bhi
    unfolding longest_junk_free_def by (rule rows) (simp_all add: in_range_def)
  have left: "in_range alo ahi (extend_left a b alo blo m)" if "in_range alo ahi m"
    for a b alo blo ahi m
    using that
  proof (induction a b alo blo m rule: extend_left.induct)
    case (1 a b alo blo besti bestj bestsize)
    show ?case
    proof (cases "besti > alo \<and> bestj > blo \<and> a ! (besti - 1) = b ! (bestj - 1)")
      case True
      have "in_range alo ahi (besti - 1, bestj - 1, bestsize + 1)"
        using 1(2) True by (auto simp: in_range_def)
      from 1(1)[OF True this] True show ?thesis
        by (subst extend_left.simps) simp
    next
      case False
      then show ?thesis
        using 1(2) by (subst extend_left.simps) auto
    qed
  qed
  have right: "in_range alo ahi (extend_right a b ahi bhi m)" if "in_range alo ahi m"
    for a b alo bhi ahi m
    using that
  proof (induction a b ahi bhi m rule: extend_right.induct)
    case (1 a b ahi bhi besti bestj bestsize)
    show ?case
    proof (cases "besti + bestsize < ahi \<and> bestj + bestsize < bhi
           \<and> a ! (besti + bestsize) = b ! (bestj + bestsize)")
      case True
      have "in_range alo ahi (besti, bestj, bestsize + 1)"
        using 1(2) True by (auto simp: in_range_def)
      from 1(1)[OF True this] True show ?thesis
        by (subst extend_right.simps) simp
    next
      case False
      then show ?thesis
        using 1(2) by (subst extend_right.simps) auto
    qed
  qed
  have longest: "alo \<le> i \<and> i + k \<le> max ahi alo"
    if "find_longest_match a b alo ahi blo bhi = (i, j, k)" for a b alo ahi blo bhi i j k
  proof -
    have "in_range alo ahi (find_longest_match a b alo ahi blo bhi)"
      unfolding find_longest_match_def by (intro right left junk_free)
    then show ?thesis using that by (simp add: in_range_def)
  qed
  show ?thesis
  proof (relation "measure (\<lambda>(a, b, queue, blocks).
            sum_list (map (\<lambda>(alo, ahi, blo, bhi). 2 * (ahi - alo) + 1) queue))", goal_cases)
    case 1
    then show ?case by simp
  next
    case (2 a b alo ahi blo bhi queue blocks i y j k)
    have "find_longest_match a b alo ahi blo bhi = (i, j, k)"
      using 2(1,2) by simp
    then have "alo \<le> i \<and> i + k \<le> max ahi alo"
      by (rule longest)
    moreover have "k \<noteq> 0" using 2(3) by simp
    ultimately have "alo \<le> i \<and> i + k \<le> ahi \<and> 0 < k"
      by (cases "ahi \<le> alo") (simp_all add: max_def)
    then show ?case by auto
  next
    case 3
    then show ?case by simp
  qed
qed

declare matching_blocks_loop.simps [simp del]

text \<open>The blocks found by the loop. The library then sorts them, merges adjacent ones and
  appends a block of size 0; none of this changes the sum of the sizes, which is all that
  \<^verbatim>\<open>ratio\<close> reads.\<close>

definition get_matching_blocks :: "string \<Rightarrow> string \<Rightarrow> match list" where
  "get_matching_blocks a b = matching_blocks_loop a b [(0, length a, 0, length b)] []"

definition calculate_ratio :: "nat \<Rightarrow> nat \<Rightarrow> rat" where
  "calculate_ratio matches len = (if len \<noteq> 0 then 2 * of_nat matches / of_nat len else 1)"

definition ratio :: "string \<Rightarrow> string \<Rightarrow> rat" where
  "ratio a b = calculate_ratio (sum_list (map (\<lambda>(i, j, k). k) (get_matching_blocks a b)))
                 (length a + length b)"


section \<open>Domain extraction\<close>

text \<open>
  \<^verbatim>\<open>tldextract.extract\<close> splits the host of a URL along the public suffix list. The
  list is data of the library, so the function is a parameter of the model; it is taken
  to be total, as the library is on every string. \<^verbatim>\<open>str.encode("idna")\<close> follows
  \<^verbatim>\<open>Lib/encodings/idna.py\<close> on ASCII input (the empty string, and the fast path that
  only checks label lengths); on other input (nameprep and punycode) it is a parameter,
  \<open>None\<close> when the codec raises. The record \<open>pylib\<close> collects these two parameters
  and the two of the URL parser.
\<close>

record extract_result =
  subdomain :: string
  domain :: string
  suffix' :: string

record pylib =
  check_bracketed_host :: "string \<Rightarrow> bool"
  nfkc :: "string \<Rightarrow> nat list"
  tld_extract :: "string \<Rightarrow> extract_result"
  idna_nonascii :: "string \<Rightarrow> string option"

definition encode_idna :: "(string \<Rightarrow> string option) \<Rightarrow> string \<Rightarrow> string option" where
  "encode_idna nonascii input =
     (if input = [] then Some []
      else if list_all is_ascii input then
        (let labels = split_on CHR ''.'' input in
         if list_ex (\<lambda>label. \<not> (0 < length label \<and> length label < 64)) (butlast labels)
         then None
         else if length (last labels) \<ge> 64 then None
         else Some input)
      else nonascii input)"

definition count_subs :: "pylib \<Rightarrow> string \<Rightarrow> nat" where
  "count_subs L u =
     (let parts = tld_extract L u;
          subs = filter (\<lambda>s. strip s \<noteq> []) (split_on CHR ''.'' (subdomain parts))
      in length subs)"

definition get_domain_ascii :: "pylib \<Rightarrow> string \<Rightarrow> string" where
  "get_domain_ascii L u =
     (let parts = tld_extract L u;
          domain_ascii = (case encode_idna (idna_nonascii L) (domain parts) of
                            Some d \<Rightarrow> d
                          | None \<Rightarrow> domain parts)
      in domain_ascii @ ''.'' @ suffix' parts)"

section \<open>The similarity matcher\<close>

text \<open>The loop of \<^verbatim>\<open>closest_real_site\<close> over a list of safe domains, from a state
  \<open>(top_score, closest)\<close>; \<open>None\<close> is Python's \<^verbatim>\<open>None\<close>.\<close>

fun closest_loop :: "string \<Rightarrow> string list \<Rightarrow> rat \<times> string option \<Rightarrow> rat \<times> string option" where
  "closest_loop d [] st = st"
| "closest_loop d (legit # rest) (top_score, closest) =
     (let sim = ratio d legit
      in if sim > top_score then closest_loop d rest (sim, Some legit)
         else closest_loop d rest (top_score, closest))"

text \<open>The matcher on a given safe-domain list, starting from \<^verbatim>\<open>top_score = 0\<close> and
  \<^verbatim>\<open>closest = None\<close>.\<close>

definition closest_in :: "string list \<Rightarrow> string \<Rightarrow> rat \<times> string option" where
  "closest_in safe d = closest_loop d safe (0, None)"

definition closest_real_site :: "pylib \<Rightarrow> string \<Rightarrow> rat \<times> string option" where
  "closest_real_site L u = closest_in SAFE_DOMAINS (get_domain_ascii L u)"

section \<open>The main checker\<close>

text \<open>The three labels: \<^verbatim>\<open>HIGH RISK: Probably PHISHING\<close>, \<^verbatim>\<open>Suspicious\<close> and
  \<^verbatim>\<open>Seems OK\<close> (each after its pictogram).\<close>

datatype label = HIGH_RISK | SUSPICIOUS | SEEMS_OK

record verdict =
  original :: string
  ip_in_url :: bool
  bad_words :: "string list"
  crazy_chars :: bool
  https :: bool
  len :: nat
  subs :: nat
  closest_match :: "rat \<times> string option"
  score :: int
  label :: label

text \<open>What \<^verbatim>\<open>check_url\<close> returns: the dictionary with the single key
  \<^verbatim>\<open>"error"\<close>, or the full verdict.\<close>

datatype outcome = Error string | Verdict verdict

text \<open>\<^verbatim>\<open>ratio > 0.85 and legit not in u\<close>: the second operand is evaluated only when
  the first holds, and \<^verbatim>\<open>None not in u\<close> raises \<^verbatim>\<open>TypeError\<close>.\<close>

definition similarity_rule :: "rat \<Rightarrow> string option \<Rightarrow> string \<Rightarrow> error + bool" where
  "similarity_rule r legit u =
     (if r > 85 / 100 then
        (case legit of None \<Rightarrow> Inl TypeError | Some d \<Rightarrow> Inr (\<not> str_in d u))
      else Inr False)"

definition classify :: "int \<Rightarrow> label" where
  "classify sc = (if sc \<ge> 8 then HIGH_RISK else if sc \<ge> 4 then SUSPICIOUS else SEEMS_OK)"

text \<open>The body of \<^verbatim>\<open>check_url\<close> after normalization, on the normalized URL.\<close>

definition build_verdict :: "pylib \<Rightarrow> string \<Rightarrow> error + verdict" where
  "build_verdict L u =
     (let ip = looks_like_ip u;
          words = find_bad_words u;
          crazy = too_many_symbols u;
          sec = is_secure u;
          n = length u;
          sb = count_subs L u;
          (r, legit) = closest_real_site L u;
          score0 = (0 :: int);
          score1 = (if ip then score0 + 5 else score0);
          score2 = (if words \<noteq> [] then score1 + 3 else score1);
          score3 = (if \<not> sec then score2 + 2 else score2);
          score4 = (if crazy then score3 + 2 else score3);
          score5 = (if n > 100 then score4 + 2 else score4);
          score6 = (if sb > 3 then score5 + 3 else score5)
      in case similarity_rule r legit u of
           Inl e \<Rightarrow> Inl e
         | Inr hit \<Rightarrow>
             (let score7 = (if hit then score6 + 4 else score6)
              in Inr \<lparr>original = u, ip_in_url = ip, bad_words = words, crazy_chars = crazy,
                      https = sec, len = n, subs = sb, closest_match = (r, legit),
                      score = score7, label = classify score7\<rparr>))"

text \<open>\<^verbatim>\<open>check_url\<close> with the normalizer it calls as an argument.\<close>

definition check_url_with ::
  "(string \<Rightarrow> error + string) \<Rightarrow> pylib \<Rightarrow> string \<Rightarrow> error + outcome" where
  "check_url_with normalizer L u0 =
     (let u = strip u0
      in if u = [] then Inr (Error ''No URL entered... try again.'')
         else (case normalizer u of
                 Inl e \<Rightarrow> Inl e
               | Inr u \<Rightarrow> (case build_verdict L u of
                             Inl e \<Rightarrow> Inl e
                           | Inr v \<Rightarrow> Inr (Verdict v))))"

definition check_url :: "pylib \<Rightarrow> string \<Rightarrow> error + outcome" where
  "check_url L u = check_url_with (normalize_url (check_bracketed_host L) (nfkc L)) L u"

section \<open>Notions used in the properties\<close>

text \<open>One to three decimal digits.\<close>

definition digit_group :: "string \<Rightarrow> bool" where
  "digit_group g = (1 \<le> length g \<and> length g \<le> 3 \<and> list_all is_digit g)"

section \<open>The scenarios\<close>

text \<open>The answers of \<^verbatim>\<open>tldextract.extract\<close> on the URLs of the scenarios, and a
  library that gives them: it rejects every bracketed host, its IDNA codec raises on
  every name that is not ASCII, and its NFKC normal form of a string is the string itself,
  as it is for every ASCII string.\<close>

definition scenario_extract :: "string \<Rightarrow> extract_result" where
  "scenario_extract u =
     (if u = ''http://paypal.com/account''
      then \<lparr>subdomain = [], domain = ''paypal'', suffix' = ''com''\<rparr>
      else if u = ''https://secure-login-update.paypa1.com-verify.net/auth''
      then \<lparr>subdomain = ''secure-login-update.paypa1'', domain = ''com-verify'', suffix' = ''net''\<rparr>
      else if u = ''http://192.168.1.1/login''
      then \<lparr>subdomain = [], domain = ''192.168.1.1'', suffix' = []\<rparr>
      else \<lparr>subdomain = [], domain = [], suffix' = []\<rparr>)"

definition scenario_lib :: pylib where
  "scenario_lib = \<lparr>check_bracketed_host = (\<lambda>h. False), nfkc = map code_point,
     tld_extract = scenario_extract, idna_nonascii = (\<lambda>s. None)\<rparr>"

section \<open>The IP-literal detector against its description\<close>





section \<open>The canonical form of a URL\<close>





section \<open>Properties of the IP-literal detector\<close>

lemma set_lit: "set (lit p s) = {r. s = p @ r}"
  by (auto simp: lit_def prefix_def)

lemma set_opt: "set (opt m s) = insert s (set (m s))"
  by (auto simp: opt_def)

lemma set_seq: "set (seq m1 m2 s) = (\<Union>t \<in> set (m1 s). set (m2 t))"
  by (auto simp: seq_def)

lemma set_digit: "set (digit s) = {r. \<exists>c. is_digit c \<and> s = c # r}"
  by (auto simp: digit_def split: list.splits)

lemma digit_group_cases:
  "digit_group g \<longleftrightarrow> (\<exists>a. is_digit a \<and> g = [a]) \<or> (\<exists>a b. is_digit a \<and> is_digit b \<and> g = [a, b])
     \<or> (\<exists>a b c. is_digit a \<and> is_digit b \<and> is_digit c \<and> g = [a, b, c])"
proof (cases g)
  case Nil
  then show ?thesis by (simp add: digit_group_def)
next
  case g1: (Cons a g1)
  show ?thesis
  proof (cases g1)
    case Nil
    then show ?thesis using g1 by (simp add: digit_group_def)
  next
    case g2: (Cons b g2)
    show ?thesis
    proof (cases g2)
      case Nil
      then show ?thesis using g1 g2 by (simp add: digit_group_def)
    next
      case g3: (Cons c g3)
      then show ?thesis using g1 g2 by (cases g3) (auto simp: digit_group_def)
    qed
  qed
qed

lemma set_rep_1_3_digit: "set (rep_1_3 digit s) = {r. \<exists>g. digit_group g \<and> s = g @ r}"
proof -
  have "set (rep_1_3 digit s) =
     {r. (\<exists>a. is_digit a \<and> s = a # r) \<or> (\<exists>a b. is_digit a \<and> is_digit b \<and> s = a # b # r)
        \<or> (\<exists>a b c. is_digit a \<and> is_digit b \<and> is_digit c \<and> s = a # b # c # r)}"
    unfolding rep_1_3_def set_seq set_opt set_digit by auto
  also have "\<dots> = {r. \<exists>g. digit_group g \<and> s = g @ r}"
    unfolding digit_group_cases by auto
  finally show ?thesis .
qed

lemma set_ip_group: "set (ip_group s) = {r. \<exists>g. digit_group g \<and> s = g @ ''.'' @ r}"
  unfolding ip_group_def set_seq set_rep_1_3_digit set_lit by auto

lemma in_ip_tail:
  "r \<in> set (seq ip_group (seq ip_group (seq ip_group (rep_1_3 digit))) t) \<longleftrightarrow>
     (\<exists>g1 g2 g3 g4. digit_group g1 \<and> digit_group g2 \<and> digit_group g3 \<and> digit_group g4
        \<and> t = g1 @ ''.'' @ g2 @ ''.'' @ g3 @ ''.'' @ g4 @ r)"
  (is "?L \<longleftrightarrow> ?R")
proof
  assume ?L
  then obtain t3 t4 t5 where t3: "t3 \<in> set (ip_group t)" and t4: "t4 \<in> set (ip_group t3)"
    and t5: "t5 \<in> set (ip_group t4)" and r: "r \<in> set (rep_1_3 digit t5)"
    unfolding set_seq by blast
  from t3 obtain g1 where g1: "digit_group g1" "t = g1 @ ''.'' @ t3"
    unfolding set_ip_group by blast
  from t4 obtain g2 where g2: "digit_group g2" "t3 = g2 @ ''.'' @ t4"
    unfolding set_ip_group by blast
  from t5 obtain g3 where g3: "digit_group g3" "t4 = g3 @ ''.'' @ t5"
    unfolding set_ip_group by blast
  from r obtain g4 where g4: "digit_group g4" "t5 = g4 @ r"
    unfolding set_rep_1_3_digit by blast
  have "t = g1 @ ''.'' @ g2 @ ''.'' @ g3 @ ''.'' @ g4 @ r"
    using g1 g2 g3 g4 by simp
  then show ?R using g1 g2 g3 g4 by blast
next
  assume ?R
  then obtain g1 g2 g3 g4 where
    g: "digit_group g1" "digit_group g2" "digit_group g3" "digit_group g4"
    and t: "t = g1 @ ''.'' @ g2 @ ''.'' @ g3 @ ''.'' @ g4 @ r"
    by blast
  let ?t5 = "g4 @ r"
  let ?t4 = "g3 @ ''.'' @ ?t5"
  let ?t3 = "g2 @ ''.'' @ ?t4"
  have r: "r \<in> set (rep_1_3 digit ?t5)"
    unfolding set_rep_1_3_digit using g by blast
  have t5: "?t5 \<in> set (ip_group ?t4)"
    unfolding set_ip_group using g by blast
  have t4: "?t4 \<in> set (ip_group ?t3)"
    unfolding set_ip_group using g by blast
  have t3: "?t3 \<in> set (ip_group t)"
    unfolding set_ip_group t using g by blast
  show ?L
    unfolding set_seq using r t5 t4 t3 by blast
qed

lemma in_ip_regex:
  "r \<in> set (ip_regex s) \<longleftrightarrow>
     (\<exists>t. (s = ''http'' @ ''://'' @ t \<or> s = ''https'' @ ''://'' @ t)
        \<and> r \<in> set (seq ip_group (seq ip_group (seq ip_group (rep_1_3 digit))) t))"
  unfolding ip_regex_def set_seq[of "lit ''http''"] set_seq[of "opt (lit ''s'')"]
    set_seq[of "lit ''://''"] set_lit set_opt
  by auto

lemma ip_regex_nonempty_iff:
  "ip_regex s \<noteq> [] \<longleftrightarrow>
     (\<exists>sch g1 g2 g3 g4 post.
        s = sch @ ''://'' @ g1 @ ''.'' @ g2 @ ''.'' @ g3 @ ''.'' @ g4 @ post
        \<and> (sch = ''http'' \<or> sch = ''https'')
        \<and> digit_group g1 \<and> digit_group g2 \<and> digit_group g3 \<and> digit_group g4)"
proof -
  have "ip_regex s \<noteq> [] \<longleftrightarrow> (\<exists>r. r \<in> set (ip_regex s))"
    by (cases "ip_regex s") auto
  also have "\<dots> \<longleftrightarrow> (\<exists>sch g1 g2 g3 g4 post.
        s = sch @ ''://'' @ g1 @ ''.'' @ g2 @ ''.'' @ g3 @ ''.'' @ g4 @ post
        \<and> (sch = ''http'' \<or> sch = ''https'')
        \<and> digit_group g1 \<and> digit_group g2 \<and> digit_group g3 \<and> digit_group g4)"
    unfolding in_ip_regex in_ip_tail by blast
  finally show ?thesis .
qed

lemma looks_like_ip_pattern:
  "looks_like_ip u \<longleftrightarrow>
     (\<exists>pre sch g1 g2 g3 g4 post.
        u = pre @ sch @ ''://'' @ g1 @ ''.'' @ g2 @ ''.'' @ g3 @ ''.'' @ g4 @ post
        \<and> (sch = ''http'' \<or> sch = ''https'')
        \<and> digit_group g1 \<and> digit_group g2 \<and> digit_group g3 \<and> digit_group g4)"
proof -
  have "looks_like_ip u \<longleftrightarrow> (\<exists>pre s. u = pre @ s \<and> ip_regex s \<noteq> [])"
    unfolding looks_like_ip_def list_ex_iff Bex_def in_set_suffixes suffix_def by blast
  then show ?thesis
    unfolding ip_regex_nonempty_iff by blast
qed





text \<open>
  C10, as stated, fails: the text \<^verbatim>\<open>ftp://999.999.999.999/\<close>, a URL that
  \<^verbatim>\<open>normalize_url\<close> returns unchanged, holds the scheme delimiter followed at once by
  four groups of digits, and the detector returns false, because the pattern asks for
  \<^verbatim>\<open>http\<close> or \<^verbatim>\<open>https\<close> in front of the delimiter.
\<close>

theorem looks_like_ip_scheme_counterexample:
  "\<not> looks_like_ip ''ftp://999.999.999.999/''
   \<and> normalize_url (check_bracketed_host scenario_lib) (nfkc scenario_lib) ''ftp://999.999.999.999/''
       = Inr ''ftp://999.999.999.999/''"
  by code_simp

text \<open>
  C10, amended. The detector validates no numeric range: every text that contains
  \<^verbatim>\<open>http://\<close> or \<^verbatim>\<open>https://\<close> followed at once by four dot-separated groups of one
  to three digits is flagged, whatever the value of a group; \<^verbatim>\<open>http://999.999.999.999/\<close>
  is.
\<close>

theorem looks_like_ip_no_range_check:
  assumes "sch = ''http'' \<or> sch = ''https''"
    and "digit_group g1" "digit_group g2" "digit_group g3" "digit_group g4"
  shows "looks_like_ip (pre @ sch @ ''://'' @ g1 @ ''.'' @ g2 @ ''.'' @ g3 @ ''.'' @ g4 @ post)"
  unfolding looks_like_ip_pattern using assms by blast

theorem looks_like_ip_no_range_check_witness:
  "digit_group ''999'' \<and> looks_like_ip ''http://999.999.999.999/''"
proof -
  have g: "digit_group ''999''" by code_simp
  have "looks_like_ip ([] @ ''http'' @ ''://'' @ ''999'' @ ''.'' @ ''999'' @ ''.'' @ ''999'' @ ''.'' @ ''999'' @ ''/'')"
    by (rule looks_like_ip_no_range_check[OF _ g g g g]) simp
  then show ?thesis using g by simp
qed

section \<open>Properties of the similarity matcher\<close>

lemma ratio_nonneg: "0 \<le> ratio a b"
  by (simp add: ratio_def calculate_ratio_def)

lemma closest_loop_spec:
  "closest_loop d xs (t, c) = (r, c') \<Longrightarrow>
     t \<le> r \<and> (\<forall>l\<in>set xs. ratio d l \<le> r) \<and>
     ((r = t \<and> c' = c) \<or>
      (\<exists>i<length xs. c' = Some (xs ! i) \<and> ratio d (xs ! i) = r \<and> t < r
          \<and> (\<forall>j<i. ratio d (xs ! j) < r)))"
proof (induction xs arbitrary: t c)
  case Nil
  then show ?case by simp
next
  case (Cons x xs)
  show ?case
  proof (cases "ratio d x > t")
    case True
    then have run: "closest_loop d xs (ratio d x, Some x) = (r, c')"
      using Cons.prems by simp
    from Cons.IH[OF run] have le: "ratio d x \<le> r" and ub: "\<forall>l\<in>set xs. ratio d l \<le> r"
      and alt: "(r = ratio d x \<and> c' = Some x) \<or>
        (\<exists>i<length xs. c' = Some (xs ! i) \<and> ratio d (xs ! i) = r \<and> ratio d x < r
          \<and> (\<forall>j<i. ratio d (xs ! j) < r))"
      by auto
    have "\<exists>i<length (x # xs). c' = Some ((x # xs) ! i) \<and> ratio d ((x # xs) ! i) = r \<and> t < r
          \<and> (\<forall>j<i. ratio d ((x # xs) ! j) < r)"
      using alt
    proof
      assume "r = ratio d x \<and> c' = Some x"
      then show ?thesis using True by (intro exI[of _ 0]) simp
    next
      assume "\<exists>i<length xs. c' = Some (xs ! i) \<and> ratio d (xs ! i) = r \<and> ratio d x < r
          \<and> (\<forall>j<i. ratio d (xs ! j) < r)"
      then obtain i where i: "i < length xs" "c' = Some (xs ! i)" "ratio d (xs ! i) = r"
        "ratio d x < r" "\<forall>j<i. ratio d (xs ! j) < r"
        by blast
      have "\<forall>j<Suc i. ratio d ((x # xs) ! j) < r"
        using i(4,5) by (auto simp: nth_Cons')
      then show ?thesis using i True by (intro exI[of _ "Suc i"]) auto
    qed
    then show ?thesis using le ub True by auto
  next
    case False
    then have run: "closest_loop d xs (t, c) = (r, c')"
      using Cons.prems by simp
    from Cons.IH[OF run] have le: "t \<le> r" and ub: "\<forall>l\<in>set xs. ratio d l \<le> r"
      and alt: "(r = t \<and> c' = c) \<or>
        (\<exists>i<length xs. c' = Some (xs ! i) \<and> ratio d (xs ! i) = r \<and> t < r
          \<and> (\<forall>j<i. ratio d (xs ! j) < r))"
      by auto
    have "(r = t \<and> c' = c) \<or> (\<exists>i<length (x # xs). c' = Some ((x # xs) ! i)
          \<and> ratio d ((x # xs) ! i) = r \<and> t < r \<and> (\<forall>j<i. ratio d ((x # xs) ! j) < r))"
      using alt
    proof
      assume "r = t \<and> c' = c"
      then show ?thesis by simp
    next
      assume "\<exists>i<length xs. c' = Some (xs ! i) \<and> ratio d (xs ! i) = r \<and> t < r
          \<and> (\<forall>j<i. ratio d (xs ! j) < r)"
      then obtain i where i: "i < length xs" "c' = Some (xs ! i)" "ratio d (xs ! i) = r"
        "t < r" "\<forall>j<i. ratio d (xs ! j) < r"
        by blast
      have "\<forall>j<Suc i. ratio d ((x # xs) ! j) < r"
        using i(4,5) False by (auto simp: nth_Cons')
      then have "\<exists>i<length (x # xs). c' = Some ((x # xs) ! i)
          \<and> ratio d ((x # xs) ! i) = r \<and> t < r \<and> (\<forall>j<i. ratio d ((x # xs) ! j) < r)"
        using i by (intro exI[of _ "Suc i"]) auto
      then show ?thesis by blast
    qed
    then show ?thesis using le ub False by auto
  qed
qed

lemma closest_in_None: "closest_in safe d = (r, None) \<Longrightarrow> r = 0"
  using closest_loop_spec[of d safe 0 None r None] by (auto simp: closest_in_def)

lemma similarity_rule_total:
  "closest_real_site L u = (r, legit) \<Longrightarrow> \<exists>hit. similarity_rule r legit u = Inr hit"
  by (cases legit) (auto simp: similarity_rule_def closest_real_site_def dest: closest_in_None)

lemma build_verdict_total: "\<exists>v. build_verdict L u = Inr v"
proof -
  obtain r legit where c: "closest_real_site L u = (r, legit)"
    by (cases "closest_real_site L u")
  from similarity_rule_total[OF c] obtain hit where "similarity_rule r legit u = Inr hit" ..
  then show ?thesis
    using c by (simp add: build_verdict_def Let_def)
qed

section \<open>A common character gives a positive ratio\<close>

lemma scan_js_size_mono:
  "snd (snd best) \<le> snd (snd (snd (scan_js j2len i blo bhi js (new, best))))"
proof (induction js arbitrary: new best)
  case Nil
  then show ?case by simp
next
  case (Cons j js)
  define k where "k = (if j = 0 then 0 else case map_of j2len (j - 1) of None \<Rightarrow> 0 | Some v \<Rightarrow> v) + 1"
  let ?best' = "if k > snd (snd best) then (i + 1 - k, j + 1 - k, k) else best"
  have step: "snd (snd ?best') \<le> snd (snd (snd (scan_js j2len i blo bhi js ((j, k) # new, ?best'))))"
    by (rule Cons.IH)
  have grow: "snd (snd best) \<le> snd (snd ?best')" by simp
  show ?case
  proof (cases "j < blo")
    case True
    then show ?thesis using Cons.IH[of best new] by simp
  next
    case False
    show ?thesis
    proof (cases "j \<ge> bhi")
      case True
      then show ?thesis using False by simp
    next
      case inside: False
      have eq: "scan_js j2len i blo bhi (j # js) (new, best) =
          scan_js j2len i blo bhi js ((j, k) # new, ?best')"
        using False inside by (simp add: k_def Let_def)
      show ?thesis unfolding eq using step grow by (rule_tac order_trans)
    qed
  qed
qed

lemma scan_js_hit:
  assumes "js \<noteq> []" "\<forall>j\<in>set js. blo \<le> j \<and> j < bhi"
  shows "1 \<le> snd (snd (snd (scan_js j2len i blo bhi js (new, best))))"
proof (cases js)
  case Nil
  then show ?thesis using assms by simp
next
  case (Cons j js')
  define k where "k = (if j = 0 then 0 else case map_of j2len (j - 1) of None \<Rightarrow> 0 | Some v \<Rightarrow> v) + 1"
  let ?best' = "if k > snd (snd best) then (i + 1 - k, j + 1 - k, k) else best"
  have j: "\<not> j < blo" "\<not> j \<ge> bhi" using assms(2) Cons by auto
  have eq: "scan_js j2len i blo bhi js (new, best) =
          scan_js j2len i blo bhi js' ((j, k) # new, ?best')"
    using j Cons by (simp add: k_def Let_def)
  have "1 \<le> k" by (simp add: k_def)
  then have "1 \<le> snd (snd ?best')" by auto
  also have "\<dots> \<le> snd (snd (snd (scan_js j2len i blo bhi js' ((j, k) # new, ?best'))))"
    by (rule scan_js_size_mono)
  finally show ?thesis unfolding eq .
qed

lemma fold_scan_size_mono:
  "snd (snd best) \<le> snd (snd (snd (fold (\<lambda>i (j2len, best).
       scan_js j2len i blo bhi (b2j b (a ! i)) ([], best)) xs (j2len, best))))"
proof (induction xs arbitrary: j2len best)
  case Nil
  then show ?case by simp
next
  case (Cons x xs)
  let ?st = "scan_js j2len x blo bhi (b2j b (a ! x)) ([], best)"
  have "snd (snd best) \<le> snd (snd (snd ?st))" by (rule scan_js_size_mono)
  also have "\<dots> \<le> snd (snd (snd (fold (\<lambda>i (j2len, best).
       scan_js j2len i blo bhi (b2j b (a ! i)) ([], best)) xs (fst ?st, snd ?st))))"
    by (rule Cons.IH)
  finally show ?case by simp
qed

lemma fold_scan_hit:
  assumes "i0 \<in> set xs" "b2j b (a ! i0) \<noteq> []" "\<forall>j\<in>set (b2j b (a ! i0)). blo \<le> j \<and> j < bhi"
  shows "1 \<le> snd (snd (snd (fold (\<lambda>i (j2len, best).
       scan_js j2len i blo bhi (b2j b (a ! i)) ([], best)) xs (j2len, best))))"
  using assms(1)
proof (induction xs arbitrary: j2len best)
  case Nil
  then show ?case by simp
next
  case (Cons x xs)
  let ?st = "scan_js j2len x blo bhi (b2j b (a ! x)) ([], best)"
  let ?rest = "fold (\<lambda>i (j2len, best).
       scan_js j2len i blo bhi (b2j b (a ! i)) ([], best)) xs (fst ?st, snd ?st)"
  show ?case
  proof (cases "x = i0")
    case True
    have "1 \<le> snd (snd (snd ?st))"
      unfolding True by (rule scan_js_hit[OF assms(2,3)])
    also have "\<dots> \<le> snd (snd (snd ?rest))" by (rule fold_scan_size_mono)
    finally show ?thesis by simp
  next
    case False
    then have "i0 \<in> set xs" using Cons.prems by simp
    from Cons.IH[OF this, of "fst ?st" "snd ?st"] show ?thesis
      by simp
  qed
qed

lemma extend_left_size_mono: "snd (snd m) \<le> snd (snd (extend_left a b alo blo m))"
proof (induction a b alo blo m rule: extend_left.induct)
  case (1 a b alo blo besti bestj bestsize)
  show ?case
  proof (cases "besti > alo \<and> bestj > blo \<and> a ! (besti - 1) = b ! (bestj - 1)")
    case True
    from 1[OF True] True show ?thesis
      by (subst extend_left.simps) simp
  next
    case False
    then show ?thesis by (subst extend_left.simps) auto
  qed
qed

lemma extend_right_size_mono: "snd (snd m) \<le> snd (snd (extend_right a b ahi bhi m))"
proof (induction a b ahi bhi m rule: extend_right.induct)
  case (1 a b ahi bhi besti bestj bestsize)
  show ?case
  proof (cases "besti + bestsize < ahi \<and> bestj + bestsize < bhi
         \<and> a ! (besti + bestsize) = b ! (bestj + bestsize)")
    case True
    from 1[OF True] True show ?thesis
      by (subst extend_right.simps) simp
  next
    case False
    then show ?thesis by (subst extend_right.simps) auto
  qed
qed

lemma b2j_common:
  assumes "c \<in> set b" "length b < 200"
  shows "b2j b c \<noteq> []" "\<forall>j\<in>set (b2j b c). 0 \<le> j \<and> j < length b"
proof -
  from assms(1) obtain j where "j < length b" "b ! j = c"
    by (auto simp: in_set_conv_nth)
  then have "j \<in> set (b2j b c)"
    using assms(2) by (simp add: b2j_def is_popular_def)
  then show "b2j b c \<noteq> []" by auto
  show "\<forall>j\<in>set (b2j b c). 0 \<le> j \<and> j < length b"
    by (auto simp: b2j_def)
qed

lemma find_longest_match_common:
  assumes "c \<in> set a" "c \<in> set b" "length b < 200"
  shows "1 \<le> snd (snd (find_longest_match a b 0 (length a) 0 (length b)))"
proof -
  from assms(1) obtain i0 where i0: "i0 < length a" "a ! i0 = c"
    by (auto simp: in_set_conv_nth)
  have in_range: "i0 \<in> set [0..<length a]" using i0 by simp
  have "1 \<le> snd (snd (longest_junk_free a b 0 (length a) 0 (length b)))"
    unfolding longest_junk_free_def
    using fold_scan_hit[OF in_range, of b a 0 "length b"] b2j_common[OF assms(2,3)] i0(2)
    by simp
  also have "\<dots> \<le> snd (snd (extend_left a b 0 0 (longest_junk_free a b 0 (length a) 0 (length b))))"
    by (rule extend_left_size_mono)
  also have "\<dots> \<le> snd (snd (find_longest_match a b 0 (length a) 0 (length b)))"
    unfolding find_longest_match_def by (rule extend_right_size_mono)
  finally show ?thesis .
qed

lemma matching_blocks_loop_keeps:
  "sum_list (map (\<lambda>(i, j, k). k) blocks)
     \<le> sum_list (map (\<lambda>(i, j, k). k) (matching_blocks_loop a b queue blocks))"
proof (induction a b queue blocks rule: matching_blocks_loop.induct)
  case (1 a b blocks)
  then show ?case by (simp add: matching_blocks_loop.simps)
next
  case (2 a b alo ahi blo bhi queue blocks)
  obtain i j k where m: "find_longest_match a b alo ahi blo bhi = (i, j, k)"
    by (cases "find_longest_match a b alo ahi blo bhi")
  show ?case
  proof (cases "k = 0")
    case True
    then show ?thesis
      using 2(2)[OF m[symmetric] refl] m by (simp add: matching_blocks_loop.simps)
  next
    case False
    have "sum_list (map (\<lambda>(i, j, k). k) blocks)
        \<le> sum_list (map (\<lambda>(i, j, k). k) (blocks @ [(i, j, k)]))"
      by simp
    also note 2(1)[OF m[symmetric] refl False]
    finally show ?thesis
      using m False by (simp add: matching_blocks_loop.simps)
  qed
qed

lemma ratio_common_positive:
  assumes "c \<in> set a" "c \<in> set b" "length b < 200"
  shows "0 < ratio a b"
proof -
  obtain i j k where m: "find_longest_match a b 0 (length a) 0 (length b) = (i, j, k)"
    by (cases "find_longest_match a b 0 (length a) 0 (length b)")
  have k: "1 \<le> k" using find_longest_match_common[OF assms] m by simp
  have "get_matching_blocks a b = matching_blocks_loop a b
      ((if i + k < length a \<and> j + k < length b then [(i + k, length a, j + k, length b)] else []) @
       (if 0 < i \<and> 0 < j then [(0, i, 0, j)] else []) @ []) ([] @ [(i, j, k)])"
    using m k by (simp add: get_matching_blocks_def matching_blocks_loop.simps)
  then have "sum_list (map (\<lambda>(i, j, k). k) [(i, j, k)])
      \<le> sum_list (map (\<lambda>(i, j, k). k) (get_matching_blocks a b))"
    using matching_blocks_loop_keeps[of "[(i, j, k)]" a b] by simp
  then have "1 \<le> sum_list (map (\<lambda>(i, j, k). k) (get_matching_blocks a b))"
    using k by simp
  then have num: "(0::rat) < 2 * of_nat (sum_list (map (\<lambda>(i, j, k). k) (get_matching_blocks a b)))"
    by simp
  have "0 < length a" using assms(1) by (cases a) auto
  then have "0 < length a + length b" by simp
  then have den: "(0::rat) < of_nat (length a + length b)" by (simp only: of_nat_0_less_iff)
  have "length a + length b \<noteq> 0" using \<open>0 < length a\<close> by simp
  then show ?thesis
    unfolding ratio_def calculate_ratio_def using divide_pos_pos[OF num den] by simp
qed

section \<open>Properties of the main checker\<close>

lemma scenario_A:
  "check_url scenario_lib ''http://paypal.com/account'' =
     Inr (Verdict \<lparr>original = ''http://paypal.com/account'', ip_in_url = False,
       bad_words = [''account''], crazy_chars = False, https = False, len = 25, subs = 0,
       closest_match = (1, Some ''paypal.com''), score = 5, label = SUSPICIOUS\<rparr>)"
  by code_simp

lemma strip_empty_iff: "strip u = [] \<longleftrightarrow> list_all is_space u"
proof
  assume "strip u = []"
  then have "dropWhile is_space (rev (dropWhile is_space u)) = []"
    by (simp add: strip_def)
  then have all: "\<forall>x\<in>set (dropWhile is_space u). is_space x"
    by (simp add: dropWhile_eq_Nil_conv)
  have "dropWhile is_space u = []"
  proof (cases "dropWhile is_space u")
    case Nil
    then show ?thesis .
  next
    case (Cons x xs)
    then have "\<not> is_space x" by (metis hd_dropWhile list.sel(1) list.distinct(1))
    then show ?thesis using all Cons by simp
  qed
  then show "list_all is_space u"
    by (simp add: dropWhile_eq_Nil_conv list_all_iff)
next
  assume "list_all is_space u"
  then show "strip u = []"
    by (auto simp: strip_def list_all_iff dest: set_dropWhileD)
qed

lemma check_url_VerdictD:
  "check_url L u = Inr (Verdict v) \<Longrightarrow>
     strip u \<noteq> [] \<and> (\<exists>n. normalize_url (check_bracketed_host L) (nfkc L) (strip u) = Inr n
        \<and> build_verdict L n = Inr v)"
  by (auto simp: check_url_def check_url_with_def Let_def split: if_splits sum.splits)

lemma similarity_rule_Inr:
  "similarity_rule r legit u = Inr hit \<Longrightarrow>
     hit = (r > 85 / 100 \<and> (case legit of None \<Rightarrow> False | Some d \<Rightarrow> \<not> str_in d u))"
  by (auto simp: similarity_rule_def split: if_splits option.splits)

lemma cond_add: "(if c then (x::int) + k else x) = x + (if c then k else 0)"
  by simp

lemma build_verdict_fields:
  assumes "build_verdict L n = Inr v"
  shows "original v = n" "ip_in_url v = looks_like_ip n" "bad_words v = find_bad_words n"
    "crazy_chars v = too_many_symbols n" "https v = is_secure n" "len v = length n"
    "subs v = count_subs L n" "closest_match v = closest_real_site L n"
    "label v = classify (score v)"
    "score v = (if ip_in_url v then 5 else 0) + (if bad_words v \<noteq> [] then 3 else 0)
       + (if \<not> https v then 2 else 0) + (if crazy_chars v then 2 else 0)
       + (if len v > 100 then 2 else 0) + (if subs v > 3 then 3 else 0)
       + (if fst (closest_match v) > 85 / 100
             \<and> (case snd (closest_match v) of None \<Rightarrow> False
                 | Some d \<Rightarrow> \<not> str_in d (original v))
          then 4 else 0)"
proof -
  obtain r legit where c: "closest_real_site L n = (r, legit)"
    by (cases "closest_real_site L n")
  from similarity_rule_total[OF c] obtain hit where h: "similarity_rule r legit n = Inr hit" ..
  note hit = similarity_rule_Inr[OF h]
  have v: "v = \<lparr>original = n, ip_in_url = looks_like_ip n, bad_words = find_bad_words n,
      crazy_chars = too_many_symbols n, https = is_secure n, len = length n,
      subs = count_subs L n, closest_match = (r, legit),
      score = (if looks_like_ip n then 5 else 0) + (if find_bad_words n \<noteq> [] then 3 else 0)
       + (if \<not> is_secure n then 2 else 0) + (if too_many_symbols n then 2 else 0)
       + (if length n > 100 then 2 else 0) + (if count_subs L n > 3 then 3 else 0)
       + (if hit then 4 else 0),
      label = classify ((if looks_like_ip n then 5 else 0) + (if find_bad_words n \<noteq> [] then 3 else 0)
       + (if \<not> is_secure n then 2 else 0) + (if too_many_symbols n then 2 else 0)
       + (if length n > 100 then 2 else 0) + (if count_subs L n > 3 then 3 else 0)
       + (if hit then 4 else 0))\<rparr>"
    using assms c h by (simp add: build_verdict_def Let_def cond_add split del: if_split)
  show fields: "original v = n" "ip_in_url v = looks_like_ip n" "bad_words v = find_bad_words n"
    "crazy_chars v = too_many_symbols n" "https v = is_secure n" "len v = length n"
    "subs v = count_subs L n" "closest_match v = closest_real_site L n"
    "label v = classify (score v)"
    by (simp_all add: v c)
  have sc: "score v = (if looks_like_ip n then 5 else 0) + (if find_bad_words n \<noteq> [] then 3 else 0)
       + (if \<not> is_secure n then 2 else 0) + (if too_many_symbols n then 2 else 0)
       + (if length n > 100 then 2 else 0) + (if count_subs L n > 3 then 3 else 0)
       + (if hit then 4 else 0)"
    by (simp add: v)
  show "score v = (if ip_in_url v then 5 else 0) + (if bad_words v \<noteq> [] then 3 else 0)
       + (if \<not> https v then 2 else 0) + (if crazy_chars v then 2 else 0)
       + (if len v > 100 then 2 else 0) + (if subs v > 3 then 3 else 0)
       + (if fst (closest_match v) > 85 / 100
             \<and> (case snd (closest_match v) of None \<Rightarrow> False
                 | Some d \<Rightarrow> \<not> str_in d (original v))
          then 4 else 0)"
    unfolding sc fields(1-8) c hit by simp
qed


lemma check_url_Inl_iff:
  "check_url L u = Inl e \<longleftrightarrow>
     strip u \<noteq> [] \<and> normalize_url (check_bracketed_host L) (nfkc L) (strip u) = Inl e"
proof (cases "normalize_url (check_bracketed_host L) (nfkc L) (strip u)")
  case (Inl e')
  then show ?thesis by (auto simp: check_url_def check_url_with_def Let_def)
next
  case (Inr n)
  obtain v where "build_verdict L n = Inr v" using build_verdict_total by blast
  then show ?thesis using Inr by (auto simp: check_url_def check_url_with_def Let_def)
qed

text \<open>
  C1. The claim: for every input that is not empty after trimming, \<^verbatim>\<open>check_url\<close>
  returns a verdict and never raises. The code breaks it: \<^verbatim>\<open>normalize_url\<close> calls
  \<^verbatim>\<open>urlparse\<close> unguarded, and \<^verbatim>\<open>urlparse\<close> raises \<^verbatim>\<open>ValueError\<close> on a
  netloc with an unmatched bracket. On the input \<^verbatim>\<open>http://[\<close> the exception leaves
  \<^verbatim>\<open>check_url\<close>, whatever the library answers elsewhere.
\<close>

theorem check_url_raises_on_unmatched_bracket:
  "check_url L ''http://['' = Inl ValueError"
  by code_simp

text \<open>
  C2. For every input that is empty or consists of white space only, \<^verbatim>\<open>check_url\<close>
  returns the error variant with a message that is not empty, never a verdict, and the
  normalizer is not run: the result is the same whatever normalizer is plugged in, also
  one that would raise.
\<close>

theorem check_url_blank_input:
  "list_all is_space u \<Longrightarrow>
     (\<exists>msg. msg \<noteq> [] \<and> check_url L u = Inr (Error msg)
        \<and> (\<forall>normalizer. check_url_with normalizer L u = Inr (Error msg)))
     \<and> (\<forall>v. check_url L u \<noteq> Inr (Verdict v))"
  by (simp add: check_url_def check_url_with_def strip_empty_iff)

theorem check_url_blank_input_witness:
  "list_all is_space ''   '' \<and>
     (\<exists>msg. msg \<noteq> [] \<and> check_url scenario_lib ''   '' = Inr (Error msg)
        \<and> (\<forall>normalizer. check_url_with normalizer scenario_lib ''   '' = Inr (Error msg)))
     \<and> (\<forall>v. check_url scenario_lib ''   '' \<noteq> Inr (Verdict v))"
proof -
  have blank: "list_all is_space ''   ''" by code_simp
  from check_url_blank_input[OF blank, of scenario_lib] blank show ?thesis by simp
qed

text \<open>
  C3. Every verdict that \<^verbatim>\<open>check_url\<close> returns has a score between 0 and 21, and its
  label is fixed by the score: at least 8 gives the high-risk label, at least 4 and below 8
  the suspicious label, below 4 the seems-ok label.
\<close>

theorem check_url_score_range_and_label:
  "check_url L u = Inr (Verdict v) \<Longrightarrow>
     0 \<le> score v \<and> score v \<le> 21
     \<and> label v = (if score v \<ge> 8 then HIGH_RISK else if score v \<ge> 4 then SUSPICIOUS else SEEMS_OK)"
proof -
  assume "check_url L u = Inr (Verdict v)"
  then obtain n where b: "build_verdict L n = Inr v"
    using check_url_VerdictD by blast
  have "0 \<le> score v" "score v \<le> 21"
    unfolding build_verdict_fields(10)[OF b] by simp_all
  moreover have "label v = (if score v \<ge> 8 then HIGH_RISK else if score v \<ge> 4 then SUSPICIOUS else SEEMS_OK)"
    using build_verdict_fields(9)[OF b] by (simp add: classify_def)
  ultimately show ?thesis by simp
qed

theorem check_url_score_range_and_label_witness:
  "\<exists>v. check_url scenario_lib ''http://paypal.com/account'' = Inr (Verdict v)
     \<and> score v = 5 \<and> 0 \<le> score v \<and> score v \<le> 21 \<and> label v = SUSPICIOUS"
  using check_url_score_range_and_label[OF scenario_A] scenario_A by simp

text \<open>
  C4. The score of every verdict is the sum of the seven rules, each added on its own:
  5 for an IP literal, 3 for at least one trigger word, 2 for a transport that is not
  secure, 2 for the symbol-density flag, 2 for a normalized URL longer than 100, 3 for
  more than 3 subdomains, and 4 when the best ratio exceeds 0.85 and the matched safe
  domain is not a substring of the normalized URL. Every flag is the detector's value on
  the normalized URL.
\<close>

theorem check_url_score_is_sum_of_rules:
  "check_url L u = Inr (Verdict v) \<Longrightarrow>
     score v = (if ip_in_url v then 5 else 0) + (if bad_words v \<noteq> [] then 3 else 0)
       + (if \<not> https v then 2 else 0) + (if crazy_chars v then 2 else 0)
       + (if len v > 100 then 2 else 0) + (if subs v > 3 then 3 else 0)
       + (if fst (closest_match v) > 85 / 100
             \<and> (case snd (closest_match v) of None \<Rightarrow> False
                 | Some d \<Rightarrow> \<not> str_in d (original v))
          then 4 else 0)
     \<and> normalize_url (check_bracketed_host L) (nfkc L) (strip u) = Inr (original v)
     \<and> ip_in_url v = looks_like_ip (original v)
     \<and> bad_words v = find_bad_words (original v)
     \<and> https v = is_secure (original v)
     \<and> crazy_chars v = too_many_symbols (original v)
     \<and> len v = length (original v)
     \<and> subs v = count_subs L (original v)
     \<and> closest_match v = closest_real_site L (original v)"
proof -
  assume "check_url L u = Inr (Verdict v)"
  then obtain n where n: "normalize_url (check_bracketed_host L) (nfkc L) (strip u) = Inr n"
    and b: "build_verdict L n = Inr v"
    using check_url_VerdictD by blast
  note f = build_verdict_fields[OF b]
  show ?thesis
    using f(10) n by (simp only: f(1-8))
qed

theorem check_url_score_is_sum_of_rules_witness:
  "\<exists>v. check_url scenario_lib ''http://paypal.com/account'' = Inr (Verdict v)
     \<and> score v = 0 + 3 + 2 + 0 + 0 + 0 + 0
     \<and> \<not> ip_in_url v \<and> bad_words v = [''account''] \<and> \<not> https v \<and> \<not> crazy_chars v
     \<and> len v = 25 \<and> subs v = 0 \<and> closest_match v = (1, Some ''paypal.com'')
     \<and> str_in ''paypal.com'' (original v)"
proof -
  have "str_in ''paypal.com'' ''http://paypal.com/account''" by code_simp
  then show ?thesis
    using check_url_score_is_sum_of_rules[OF scenario_A] scenario_A by simp
qed

section \<open>The matcher and scenario B: properties\<close>

lemma SAFE_DOMAINS_dot: "l \<in> set SAFE_DOMAINS \<Longrightarrow> CHR ''.'' \<in> set l \<and> length l < 200"
  by (auto simp: SAFE_DOMAINS_def)

lemma get_domain_ascii_dot: "CHR ''.'' \<in> set (get_domain_ascii L u)"
  by (simp add: get_domain_ascii_def Let_def)

lemma closest_in_empty: "closest_in [] d = (0, None)"
  by (simp add: closest_in_def)

lemma closest_real_site_positive:
  "closest_real_site L u = (r, c) \<Longrightarrow> 0 < r"
proof -
  assume "closest_real_site L u = (r, c)"
  then have run: "closest_loop (get_domain_ascii L u) SAFE_DOMAINS (0, None) = (r, c)"
    by (simp add: closest_real_site_def closest_in_def)
  have g: "''google.com'' \<in> set SAFE_DOMAINS" by (simp add: SAFE_DOMAINS_def)
  from SAFE_DOMAINS_dot[OF g] have "0 < ratio (get_domain_ascii L u) ''google.com''"
    by (intro ratio_common_positive[of "CHR ''.''"]) (auto simp: get_domain_ascii_dot)
  moreover have "ratio (get_domain_ascii L u) ''google.com'' \<le> r"
    using closest_loop_spec[OF run] g by blast
  ultimately show ?thesis by simp
qed

text \<open>
  C6. \<^verbatim>\<open>closest_real_site\<close> returns the maximum of the similarity ratios between the
  extracted domain and the entries of the safe-domain list, together with an entry that
  has this ratio; every entry listed before the returned one has a strictly smaller
  ratio, so among the entries that tie for the maximum the one listed first is returned.
  The loop run on an empty list returns ratio 0 and an absent match.
\<close>

theorem closest_real_site_first_maximum:
  "(\<exists>i<length SAFE_DOMAINS.
      closest_real_site L u
        = (ratio (get_domain_ascii L u) (SAFE_DOMAINS ! i), Some (SAFE_DOMAINS ! i))
      \<and> (\<forall>l\<in>set SAFE_DOMAINS.
            ratio (get_domain_ascii L u) l \<le> ratio (get_domain_ascii L u) (SAFE_DOMAINS ! i))
      \<and> (\<forall>j<i. ratio (get_domain_ascii L u) (SAFE_DOMAINS ! j)
                  < ratio (get_domain_ascii L u) (SAFE_DOMAINS ! i)))
   \<and> closest_in [] d = (0, None)"
proof -
  obtain r c where res: "closest_real_site L u = (r, c)"
    by (cases "closest_real_site L u")
  then have run: "closest_loop (get_domain_ascii L u) SAFE_DOMAINS (0, None) = (r, c)"
    by (simp add: closest_real_site_def closest_in_def)
  note spec = closest_loop_spec[OF run]
  from spec have ub: "\<forall>l\<in>set SAFE_DOMAINS. ratio (get_domain_ascii L u) l \<le> r"
    by blast
  have pos: "0 < r" by (rule closest_real_site_positive[OF res])
  with spec obtain i where i: "i < length SAFE_DOMAINS" "c = Some (SAFE_DOMAINS ! i)"
    "ratio (get_domain_ascii L u) (SAFE_DOMAINS ! i) = r"
    "\<forall>j<i. ratio (get_domain_ascii L u) (SAFE_DOMAINS ! j) < r"
    by auto
  have "closest_real_site L u
        = (ratio (get_domain_ascii L u) (SAFE_DOMAINS ! i), Some (SAFE_DOMAINS ! i))
      \<and> (\<forall>l\<in>set SAFE_DOMAINS.
            ratio (get_domain_ascii L u) l \<le> ratio (get_domain_ascii L u) (SAFE_DOMAINS ! i))
      \<and> (\<forall>j<i. ratio (get_domain_ascii L u) (SAFE_DOMAINS ! j)
                  < ratio (get_domain_ascii L u) (SAFE_DOMAINS ! i))"
    using res i ub by simp
  with i(1) show ?thesis
    using closest_in_empty by blast
qed

theorem closest_real_site_first_maximum_witness:
  "closest_real_site
      (scenario_lib\<lparr>tld_extract := (\<lambda>u. \<lparr>subdomain = [], domain = ''aa'', suffix' = ''com''\<rparr>)\<rparr>)
      ''http://aa.com/'' = (3 / 4, Some ''amazon.com'')
   \<and> SAFE_DOMAINS ! 4 = ''amazon.com'' \<and> SAFE_DOMAINS ! 5 = ''paypal.com''
   \<and> ratio ''aa.com'' ''amazon.com'' = 3 / 4 \<and> ratio ''aa.com'' ''paypal.com'' = 3 / 4
   \<and> (\<exists>i<length SAFE_DOMAINS. SAFE_DOMAINS ! i = ''amazon.com''
        \<and> list_all (\<lambda>l. ratio ''aa.com'' l \<le> 3 / 4) SAFE_DOMAINS
        \<and> list_all (\<lambda>j. ratio ''aa.com'' (SAFE_DOMAINS ! j) < 3 / 4) [0..<i])"
proof -
  let ?L = "scenario_lib\<lparr>tld_extract := (\<lambda>u. \<lparr>subdomain = [], domain = ''aa'', suffix' = ''com''\<rparr>)\<rparr>"
  let ?u = "''http://aa.com/''"
  have d: "get_domain_ascii ?L ?u = ''aa.com''" by code_simp
  have e: "closest_real_site ?L ?u = (3 / 4, Some ''amazon.com'')" by code_simp
  have s: "SAFE_DOMAINS ! 4 = ''amazon.com''" "SAFE_DOMAINS ! 5 = ''paypal.com''"
    by (simp_all add: SAFE_DOMAINS_def)
  have r: "ratio ''aa.com'' ''amazon.com'' = 3 / 4" "ratio ''aa.com'' ''paypal.com'' = 3 / 4"
    by code_simp+
  from closest_real_site_first_maximum[of ?L ?u "''aa.com''"]
  obtain i where i: "i < length SAFE_DOMAINS"
    "closest_real_site ?L ?u = (ratio ''aa.com'' (SAFE_DOMAINS ! i), Some (SAFE_DOMAINS ! i))"
    "\<forall>l\<in>set SAFE_DOMAINS. ratio ''aa.com'' l \<le> ratio ''aa.com'' (SAFE_DOMAINS ! i)"
    "\<forall>j<i. ratio ''aa.com'' (SAFE_DOMAINS ! j) < ratio ''aa.com'' (SAFE_DOMAINS ! i)"
    unfolding d by blast
  from i(2) e have m: "SAFE_DOMAINS ! i = ''amazon.com''" "ratio ''aa.com'' (SAFE_DOMAINS ! i) = 3 / 4"
    by simp_all
  have "list_all (\<lambda>l. ratio ''aa.com'' l \<le> 3 / 4) SAFE_DOMAINS"
    using i(3) unfolding m(2) by (simp add: list_all_iff)
  moreover have "list_all (\<lambda>j. ratio ''aa.com'' (SAFE_DOMAINS ! j) < 3 / 4) [0..<i]"
    using i(4) unfolding m(2) by (simp add: list_all_iff)
  ultimately have "\<exists>i<length SAFE_DOMAINS. SAFE_DOMAINS ! i = ''amazon.com''
        \<and> list_all (\<lambda>l. ratio ''aa.com'' l \<le> 3 / 4) SAFE_DOMAINS
        \<and> list_all (\<lambda>j. ratio ''aa.com'' (SAFE_DOMAINS ! j) < 3 / 4) [0..<i]"
    using i(1) m(1) by blast
  then show ?thesis using e s r by simp
qed

text \<open>
  C9, as stated, fails. On the input of scenario B the URL has three hyphens, so the
  symbol-density flag is false; the string compared with the safe list is
  \<^verbatim>\<open>com-verify.net\<close>, whose best ratio is 6/23, so the similarity rule adds nothing;
  the score is 3 and the label is the seems-ok one.
\<close>

theorem scenario_B_counterexample:
  "check_url scenario_lib ''https://secure-login-update.paypa1.com-verify.net/auth'' =
     Inr (Verdict \<lparr>original = ''https://secure-login-update.paypa1.com-verify.net/auth'',
       ip_in_url = False, bad_words = [''login'', ''secure'', ''update'', ''verify'', ''auth''],
       crazy_chars = False, https = True, len = 54, subs = 2,
       closest_match = (6 / 23, Some ''apple.com''), score = 3, label = SEEMS_OK\<rparr>)"
  by code_simp

text \<open>
  C9, amended. Whenever \<^verbatim>\<open>tldextract\<close> splits the host of the scenario B input into
  the subdomain \<^verbatim>\<open>secure-login-update.paypa1\<close>, the domain \<^verbatim>\<open>com-verify\<close> and the
  suffix \<^verbatim>\<open>net\<close>, the verdict has is-secure true, the trigger words login, secure,
  update, verify and auth, the symbol-density flag false (three hyphens), no contribution
  of the similarity rule (best ratio 6/23, and 1/4 against \<^verbatim>\<open>paypal.com\<close>), score 3 and
  the seems-ok label.
\<close>

theorem scenario_B_verdict:
  assumes "tld_extract L ''https://secure-login-update.paypa1.com-verify.net/auth'' =
     \<lparr>subdomain = ''secure-login-update.paypa1'', domain = ''com-verify'', suffix' = ''net''\<rparr>"
  shows "check_url L ''https://secure-login-update.paypa1.com-verify.net/auth'' =
     Inr (Verdict \<lparr>original = ''https://secure-login-update.paypa1.com-verify.net/auth'',
       ip_in_url = False, bad_words = [''login'', ''secure'', ''update'', ''verify'', ''auth''],
       crazy_chars = False, https = True, len = 54, subs = 2,
       closest_match = (6 / 23, Some ''apple.com''), score = 3, label = SEEMS_OK\<rparr>)
     \<and> str_count ''https://secure-login-update.paypa1.com-verify.net/auth'' CHR ''-'' = 3
     \<and> ratio ''com-verify.net'' ''paypal.com'' = 1 / 4"
proof -
  let ?u = "''https://secure-login-update.paypa1.com-verify.net/auth''"
  have s: "strip ?u = ?u" by code_simp
  have n: "normalize_url (check_bracketed_host L) (nfkc L) ?u = Inr ?u" by code_simp
  have ip: "looks_like_ip ?u = False" by code_simp
  have w: "find_bad_words ?u = [''login'', ''secure'', ''update'', ''verify'', ''auth'']"
    by code_simp
  have c: "too_many_symbols ?u = False" by code_simp
  have h: "is_secure ?u = True" by code_simp
  have l: "length ?u = 54" by simp
  have sb: "count_subs L ?u = 2"
  proof -
    have "length (filter (\<lambda>s. strip s \<noteq> []) (split_on CHR ''.'' ''secure-login-update.paypa1'')) = 2"
      by code_simp
    then show ?thesis by (simp add: count_subs_def assms)
  qed
  have "encode_idna (idna_nonascii L) ''com-verify'' = Some ''com-verify''" by code_simp
  then have d: "get_domain_ascii L ?u = ''com-verify.net''"
    by (simp add: get_domain_ascii_def assms)
  have cl: "closest_in SAFE_DOMAINS ''com-verify.net'' = (6 / 23, Some ''apple.com'')"
    by code_simp
  have sim: "similarity_rule (6 / 23) (Some ''apple.com'') ?u = Inr False"
    by (simp add: similarity_rule_def)
  have b: "build_verdict L ?u = Inr \<lparr>original = ?u,
       ip_in_url = False, bad_words = [''login'', ''secure'', ''update'', ''verify'', ''auth''],
       crazy_chars = False, https = True, len = 54, subs = 2,
       closest_match = (6 / 23, Some ''apple.com''), score = 3, label = SEEMS_OK\<rparr>"
    unfolding build_verdict_def closest_real_site_def d cl ip w c h l sb
    by (simp add: sim classify_def)
  have v: "check_url L ?u = Inr (Verdict \<lparr>original = ?u,
       ip_in_url = False, bad_words = [''login'', ''secure'', ''update'', ''verify'', ''auth''],
       crazy_chars = False, https = True, len = 54, subs = 2,
       closest_match = (6 / 23, Some ''apple.com''), score = 3, label = SEEMS_OK\<rparr>)"
    by (simp add: check_url_def check_url_with_def Let_def s n b)
  have hy: "str_count ?u CHR ''-'' = 3" by code_simp
  have r: "ratio ''com-verify.net'' ''paypal.com'' = 1 / 4" by code_simp
  show ?thesis using v hy r by simp
qed

theorem scenario_B_verdict_witness:
  "tld_extract scenario_lib ''https://secure-login-update.paypa1.com-verify.net/auth'' =
     \<lparr>subdomain = ''secure-login-update.paypa1'', domain = ''com-verify'', suffix' = ''net''\<rparr>
   \<and> crazy_chars (case check_url scenario_lib ''https://secure-login-update.paypa1.com-verify.net/auth''
        of Inr (Verdict v) \<Rightarrow> v) = False
   \<and> score (case check_url scenario_lib ''https://secure-login-update.paypa1.com-verify.net/auth''
        of Inr (Verdict v) \<Rightarrow> v) = 3"
proof -
  have e: "tld_extract scenario_lib ''https://secure-login-update.paypa1.com-verify.net/auth'' =
     \<lparr>subdomain = ''secure-login-update.paypa1'', domain = ''com-verify'', suffix' = ''net''\<rparr>"
    by (simp add: scenario_lib_def scenario_extract_def)
  from scenario_B_verdict[OF e] e show ?thesis by simp
qed

section \<open>Properties of the normalizer\<close>

















end
